theory Spec2Isabelle
  imports
    Main
    "HOL-Library.Char_ord"
    "HOL-Library.List_Lexorder"
    "HOL-Library.Sublist"
    "HOL-Library.AList"
begin

section \<open>Data model\<close>

text \<open>
  The values \<^verbatim>\<open>json.Unmarshal\<close> decodes into an \<^verbatim>\<open>interface{}\<close>:
  \<^verbatim>\<open>nil\<close>, \<^verbatim>\<open>bool\<close>, \<^verbatim>\<open>float64\<close>, \<^verbatim>\<open>string\<close>,
  \<^verbatim>\<open>[]interface{}\<close> and \<^verbatim>\<open>map[string]interface{}\<close>. The number type is a
  parameter \<open>'n\<close>: the program never computes with a number, it only prints it.

  A Go map is an association list with pairwise distinct keys (\<open>wf_json\<close> below). The
  order of the list stands for the order in which \<^verbatim>\<open>range\<close> happens to yield the
  entries, which Go leaves unspecified; lookups go through \<open>map_of\<close> and never depend
  on it.
\<close>

datatype 'n json =
    JNull
  | JBool bool
  | JNumber 'n
  | JString string
  | JArray "'n json list"
  | JObject "(string \<times> 'n json) list"

text \<open>The invariant of Go maps: no key occurs twice, at any depth.\<close>

fun wf_json :: "'n json \<Rightarrow> bool" where
  "wf_json (JObject kvs) = (distinct (map fst kvs) \<and> (\<forall>(k, v) \<in> set kvs. wf_json v))"
| "wf_json (JArray xs) = (\<forall>v \<in> set xs. wf_json v)"
| "wf_json _ = True"

text \<open>
  \<^verbatim>\<open>val[k]\<close> on a \<^verbatim>\<open>map[string]interface{}\<close>: the value stored under \<open>k\<close>, and the
  zero value \<^verbatim>\<open>nil\<close> when the key is absent.
\<close>

definition index_map :: "(string \<times> 'n json) list \<Rightarrow> string \<Rightarrow> 'n json" where
  "index_map m k = (case map_of m k of Some v \<Rightarrow> v | None \<Rightarrow> JNull)"

text \<open>A value stored in a map is smaller than the map.\<close>

lemma size_map_of:
  "map_of m k = Some v \<Longrightarrow> size v < Suc (size_list (size_prod (\<lambda>x. 0) size) m)"
  by (induction m) (auto split: if_splits)

lemma size_index_map:
  assumes "k \<in> fst ` set m"
  shows "size (index_map m k) < Suc (size_list (size_prod (\<lambda>x. 0) size) m)"
proof -
  from assms obtain v where "map_of m k = Some v"
    by (cases "map_of m k") (auto simp: map_of_eq_None_iff)
  then show ?thesis
    by (simp add: index_map_def size_map_of)
qed

text \<open>
  Two values denote the same JSON document: equal scalars, arrays equal position by
  position, objects with the same keys and equivalent values under each key. The order
  in which an object lists its entries plays no role.
\<close>

function json_equiv :: "'n json \<Rightarrow> 'n json \<Rightarrow> bool" where
  "json_equiv JNull b = (b = JNull)"
| "json_equiv (JBool x) b = (b = JBool x)"
| "json_equiv (JNumber x) b = (b = JNumber x)"
| "json_equiv (JString x) b = (b = JString x)"
| "json_equiv (JArray xs) b =
     (case b of
        JArray ys \<Rightarrow>
          length xs = length ys \<and> (\<forall>(x, y) \<in> set (zip xs ys). json_equiv x y)
      | _ \<Rightarrow> False)"
| "json_equiv (JObject xs) b =
     (case b of
        JObject ys \<Rightarrow>
          set (map fst xs) = set (map fst ys) \<and>
          (\<forall>k \<in> set (map fst xs). json_equiv (index_map xs k) (index_map ys k))
      | _ \<Rightarrow> False)"
  by pat_completeness auto
termination
proof (relation "measure (\<lambda>(a, b). size a)")
  show "wf (measure (\<lambda>(a :: 'n json, b :: 'n json). size a))" by simp
next
  fix xs :: "'n json list" and b :: "'n json" and ys :: "'n json list" and p x y
  assume "p \<in> set (zip xs ys)" and "(x, y) = p"
  then have "x \<in> set xs" by (auto dest: set_zip_leftD)
  then have "size x < Suc (size_list size xs)"
    by (simp add: less_Suc_eq_le size_list_estimation')
  then show "((x, y), (JArray xs, b)) \<in> measure (\<lambda>(a, b). size a)" by simp
next
  fix xs :: "(string \<times> 'n json) list" and b :: "'n json" and ys k
  assume "k \<in> set (map fst xs)"
  then have "size (index_map xs k) < Suc (size_list (size_prod (\<lambda>x. 0) size) xs)"
    using size_index_map [of k xs] by simp
  then show "((index_map xs k, index_map ys k), (JObject xs, b)) \<in> measure (\<lambda>(a, b). size a)"
    by simp
qed

lemma json_equiv_JArray:
  "json_equiv (JArray xs) b = (\<exists>ys. b = JArray ys \<and> list_all2 json_equiv xs ys)"
  by (cases b) (simp_all add: list_all2_iff)

lemma json_equiv_JObject:
  "json_equiv (JObject xs) b =
     (\<exists>ys. b = JObject ys \<and> fst ` set xs = fst ` set ys \<and>
        (\<forall>k \<in> fst ` set xs. json_equiv (index_map xs k) (index_map ys k)))"
  by (cases b) simp_all

declare json_equiv.simps(5,6) [simp del]

lemma index_map_member:
  "k \<in> fst ` set m \<Longrightarrow> (k, index_map m k) \<in> set m"
  by (cases "map_of m k") (auto simp: index_map_def map_of_eq_None_iff dest: map_of_SomeD)

lemma wf_json_index_map:
  assumes "wf_json (JObject val)" and "k \<in> fst ` set val"
  shows "wf_json (index_map val k)"
  using index_map_member [OF assms(2)] assms(1) by auto

section \<open>The change index\<close>

text \<open>
  \<^verbatim>\<open>type ChangeType string\<close> with its four constants, and
  \<^verbatim>\<open>type DiffMap map[string]ChangeType\<close>. The program never iterates over a
  \<open>DiffMap\<close>, so it is a partial function.
\<close>

type_synonym ChangeType = string

definition Added :: ChangeType where "Added = ''added''"
definition Removed :: ChangeType where "Removed = ''removed''"
definition Changed :: ChangeType where "Changed = ''changed''"
definition Unchanged :: ChangeType where "Unchanged = ''unchanged''"

type_synonym DiffMap = "string \<rightharpoonup> ChangeType"

text \<open>
  \<^verbatim>\<open>diff.Change\<close> of the library \<^verbatim>\<open>github.com/r3labs/diff/v3\<close>, as
  \<open>buildDiffMap\<close> and \<open>buildDiffTable\<close> read it. An absent \<open>From\<close> or \<open>To\<close> is
  \<^verbatim>\<open>nil\<close>.
\<close>

record 'n Change =
  Type :: string
  Path :: "string list"
  From :: "'n json"
  To :: "'n json"

text \<open>\<^verbatim>\<open>strings.Join(elems, sep)\<close>.\<close>

fun Join :: "string list \<Rightarrow> string \<Rightarrow> string" where
  "Join [] sep = []"
| "Join [x] sep = x"
| "Join (x # y # ys) sep = x @ sep @ Join (y # ys) sep"

text \<open>The \<^verbatim>\<open>switch c.Type\<close> of \<open>buildDiffMap\<close>.\<close>

definition changeTypeOf :: "string \<Rightarrow> ChangeType" where
  "changeTypeOf t =
     (if t = ''create'' then Added
      else if t = ''delete'' then Removed
      else if t = ''update'' then Changed
      else Unchanged)"

text \<open>The loop of \<open>buildDiffMap\<close>, with the map \<open>m\<close> built so far.\<close>

fun buildDiffMap_loop :: "DiffMap \<Rightarrow> 'n Change list \<Rightarrow> DiffMap" where
  "buildDiffMap_loop m [] = m"
| "buildDiffMap_loop m (c # changes) =
     (let p = Join (Path c) ''.'';
          ct = changeTypeOf (Type c)
      in buildDiffMap_loop (m(p \<mapsto> ct)) changes)"

definition buildDiffMap :: "'n Change list \<Rightarrow> DiffMap" where
  "buildDiffMap changes = buildDiffMap_loop Map.empty changes"

definition getChangeType :: "DiffMap \<Rightarrow> string \<Rightarrow> string" where
  "getChangeType diffMap path = (case diffMap path of Some v \<Rightarrow> v | None \<Rightarrow> Unchanged)"

section \<open>Canonical paths\<close>

text \<open>
  \<^verbatim>\<open>strconv.Atoi\<close> on a 64-bit platform: an optional sign, then one or more decimal
  digits, and the value must fit an \<^verbatim>\<open>int\<close>; \<open>None\<close> is the error return.
\<close>

definition is_digit :: "char \<Rightarrow> bool" where
  "is_digit c = (CHR ''0'' \<le> c \<and> c \<le> CHR ''9'')"

definition digits_value :: "string \<Rightarrow> nat" where
  "digits_value ds = foldl (\<lambda>n c. 10 * n + (of_char c - 48)) 0 ds"

definition Atoi :: "string \<Rightarrow> int option" where
  "Atoi s =
     (let signed = (s \<noteq> [] \<and> (hd s = CHR ''-'' \<or> hd s = CHR ''+''));
          neg = (s \<noteq> [] \<and> hd s = CHR ''-'');
          ds = (if signed then tl s else s)
      in if ds = [] \<or> \<not> list_all is_digit ds then None
         else let n = int (digits_value ds);
                  v = (if neg then - n else n)
              in if - (2 ^ 63) \<le> v \<and> v < 2 ^ 63 then Some v else None)"

definition pathKey :: "string \<Rightarrow> string \<Rightarrow> string" where
  "pathKey base key =
     (if base = [] then key
      else if Atoi key \<noteq> None then base @ ''.'' @ key
      else base @ ''.'' @ key)"

text \<open>\<^verbatim>\<open>fmt.Sprintf("%d", i)\<close> for an index \<open>i\<close> of a \<^verbatim>\<open>range\<close> loop.\<close>

function Sprintf_d :: "nat \<Rightarrow> string" where
  "Sprintf_d n =
     (if n < 10 then [''0123456789'' ! n]
      else Sprintf_d (n div 10) @ [''0123456789'' ! (n mod 10)])"
  by pat_completeness auto
termination
  by (relation "measure id") auto

declare Sprintf_d.simps [simp del]

section \<open>Escaping\<close>

text \<open>
  \<^verbatim>\<open>strings.NewReplacer\<close> with single-byte patterns: \<^verbatim>\<open>Replace\<close> reads the input
  once, byte by byte, and writes for each byte the replacement of the first pair whose
  pattern is that byte, or the byte itself. Replacements are not read again.
\<close>

fun Replace :: "(char \<times> string) list \<Rightarrow> string \<Rightarrow> string" where
  "Replace r [] = []"
| "Replace r (c # cs) = (case map_of r c of Some new \<Rightarrow> new | None \<Rightarrow> [c]) @ Replace r cs"

definition htmlReplacer :: "(char \<times> string) list" where
  "htmlReplacer =
     [(CHR ''&'', ''&amp;''),
      (CHR ''<'', ''&lt;''),
      (CHR ''>'', ''&gt;''),
      (CHR 0x22, ''&quot;''),
      (CHR 0x27, ''&#39;'')]"

definition escapeHTML :: "string \<Rightarrow> string" where
  "escapeHTML s = Replace htmlReplacer s"

section \<open>The renderer\<close>

text \<open>
  \<open>sortedKeys\<close> appends the keys in the order \<^verbatim>\<open>range\<close> yields them and sorts the
  slice with \<^verbatim>\<open>sort.Strings\<close>, which orders strings byte by byte.
\<close>

definition sortedKeys :: "(string \<times> 'v) list \<Rightarrow> string list" where
  "sortedKeys m = sort (map fst m)"

lemma set_sortedKeys: "set (sortedKeys m) = fst ` set m"
  by (simp add: sortedKeys_def)

lemma enumerate_member: "(i, x) \<in> set (enumerate n xs) \<Longrightarrow> x \<in> set xs"
  by (auto simp: in_set_enumerate_eq)

text \<open>
  \<open>renderJSON\<close>; \<open>fmtv\<close> is \<^verbatim>\<open>fmt.Sprintf("%v", val)\<close> on a \<^verbatim>\<open>float64\<close>. The
  \<^verbatim>\<open>default\<close> branch of the type switch has no counterpart: a decoded document holds
  no value of another type.
\<close>

function renderJSON :: "('n \<Rightarrow> string) \<Rightarrow> 'n json \<Rightarrow> string \<Rightarrow> DiffMap \<Rightarrow> string" where
  "renderJSON fmtv (JObject val) path diffMap =
     (let keys = sortedKeys val in
        ''<div class=\"json-object\">{'' @
        ''<ul class=\"json-list\">'' @
        concat (map (\<lambda>(i, k).
          let vv = index_map val k;
              p = pathKey path k;
              changeType = getChangeType diffMap p
          in ''<li class=\"json-key '' @ changeType @ ''\">'' @
             ''<span class=\"key\">\"'' @ escapeHTML k @ ''\"</span>: '' @
             renderJSON fmtv vv p diffMap @
             (if int i < int (length keys) - 1 then '','' else []) @
             ''</li>'') (enumerate 0 keys)) @
        ''</ul>}'' @
        ''</div>'')"
| "renderJSON fmtv (JArray val) path diffMap =
     ''<div class=\"json-array\">['' @
     ''<ul class=\"json-list\">'' @
     concat (map (\<lambda>(i, vv).
       let p = pathKey path (Sprintf_d i);
           changeType = getChangeType diffMap p
       in ''<li class=\"json-key '' @ changeType @ ''\">'' @
          renderJSON fmtv vv p diffMap @
          (if int i < int (length val) - 1 then '','' else []) @
          ''</li>'') (enumerate 0 val)) @
     ''</ul>]'' @
     ''</div>''"
| "renderJSON fmtv (JString val) path diffMap =
     ''<span class=\"json-string\">\"'' @ escapeHTML val @ ''\"</span>''"
| "renderJSON fmtv (JNumber val) path diffMap =
     ''<span class=\"json-number\">'' @ fmtv val @ ''</span>''"
| "renderJSON fmtv (JBool val) path diffMap =
     ''<span class=\"json-bool\">'' @ (if val then ''true'' else ''false'') @ ''</span>''"
| "renderJSON fmtv JNull path diffMap = ''<span class=\"json-null\">null</span>''"
  by pat_completeness auto
termination
proof (relation "measure (\<lambda>(fmtv, v, path, diffMap). size v)")
  show "wf (measure (\<lambda>(fmtv :: 'n \<Rightarrow> string, v :: 'n json, path :: string, diffMap :: DiffMap). size v))"
    by simp
next
  fix fmtv :: "'n \<Rightarrow> string" and val :: "(string \<times> 'n json) list"
    and path :: string and diffMap :: DiffMap
    and keys :: "string list" and ik :: "nat \<times> string" and i k vv p
  assume "keys = sortedKeys val" and "ik \<in> set (enumerate 0 keys)" and "(i, k) = ik"
    and "vv = index_map val k"
  then have "k \<in> fst ` set val"
    using enumerate_member [of i k 0 keys] by (simp add: set_sortedKeys)
  then have "size vv < size (JObject val)"
    using size_index_map [of k val] \<open>vv = index_map val k\<close> by simp
  then show "((fmtv, vv, p, diffMap), (fmtv, JObject val, path, diffMap))
      \<in> measure (\<lambda>(fmtv, v, path, diffMap). size v)"
    by simp
next
  fix fmtv :: "'n \<Rightarrow> string" and val :: "'n json list"
    and path :: string and diffMap :: DiffMap
    and iv :: "nat \<times> 'n json" and i vv p
  assume "iv \<in> set (enumerate 0 val)" and "(i, vv) = iv"
  then have "vv \<in> set val"
    using enumerate_member [of i vv 0 val] by simp
  then have "size vv < size (JArray val)"
    by (simp add: less_Suc_eq_le size_list_estimation')
  then show "((fmtv, vv, p, diffMap), (fmtv, JArray val, path, diffMap))
      \<in> measure (\<lambda>(fmtv, v, path, diffMap). size v)"
    by simp
qed

text \<open>
  One list item, as both loops write it: the opening tag with the change class, the
  label (the key of an object member, nothing for an array element), the member's own
  markup, a comma unless the item is the last, and the closing tag.
\<close>

definition key_label :: "string \<Rightarrow> string" where
  "key_label k = ''<span class=\"key\">\"'' @ escapeHTML k @ ''\"</span>: ''"

definition li_item :: "string \<Rightarrow> string \<Rightarrow> string \<Rightarrow> bool \<Rightarrow> string" where
  "li_item changeType label body comma =
     ''<li class=\"json-key '' @ changeType @ ''\">'' @ label @ body @
     (if comma then '','' else []) @ ''</li>''"

lemma sortedKeys_length: "length (sortedKeys m) = length m"
  by (simp add: sortedKeys_def)

lemma sortedKeys_sorted: "sorted (sortedKeys m)"
  by (simp add: sortedKeys_def)

lemma sortedKeys_distinct: "distinct (map fst m) \<Longrightarrow> distinct (sortedKeys m)"
  by (simp add: sortedKeys_def)

lemma renderJSON_JObject:
  "renderJSON fmtv (JObject val) path diffMap =
     ''<div class=\"json-object\">{<ul class=\"json-list\">'' @
     concat (map (\<lambda>(i, k).
       li_item (getChangeType diffMap (pathKey path k)) (key_label k)
         (renderJSON fmtv (index_map val k) (pathKey path k) diffMap)
         (Suc i < length val)) (enumerate 0 (sortedKeys val))) @
     ''</ul>}</div>''"
proof -
  have "int i < int (length val) - 1 \<longleftrightarrow> Suc i < length val" for i
    by auto
  then show ?thesis
    by (simp add: Let_def li_item_def key_label_def sortedKeys_length)
qed

lemma renderJSON_JArray:
  "renderJSON fmtv (JArray val) path diffMap =
     ''<div class=\"json-array\">[<ul class=\"json-list\">'' @
     concat (map (\<lambda>(i, vv).
       li_item (getChangeType diffMap (pathKey path (Sprintf_d i))) []
         (renderJSON fmtv vv (pathKey path (Sprintf_d i)) diffMap)
         (Suc i < length val)) (enumerate 0 val)) @
     ''</ul>]</div>''"
proof -
  have "int i < int (length val) - 1 \<longleftrightarrow> Suc i < length val" for i
    by auto
  then show ?thesis
    by (simp add: Let_def li_item_def)
qed

declare renderJSON.simps(1,2) [simp del]

section \<open>The key-sorted copy\<close>

text \<open>
  \<open>sortJSON\<close> fills a fresh map, \<^verbatim>\<open>sorted[k] = sortJSON(val[k])\<close> for the keys in
  sorted order (\<open>AList.update\<close> is the assignment \<^verbatim>\<open>m[k] = v\<close>), and overwrites the
  elements of a slice. The model returns the value the function returns; nothing below
  depends on the caller's slice after the call.
\<close>

function sortJSON :: "'n json \<Rightarrow> 'n json" where
  "sortJSON (JObject val) =
     (let keys = sortedKeys val
      in JObject (foldl (\<lambda>sorted k. AList.update k (sortJSON (index_map val k)) sorted) [] keys))"
| "sortJSON (JArray val) = JArray (map sortJSON val)"
| "sortJSON JNull = JNull"
| "sortJSON (JBool b) = JBool b"
| "sortJSON (JNumber n) = JNumber n"
| "sortJSON (JString s) = JString s"
  by pat_completeness auto
termination
proof (relation "measure size")
  show "wf (measure (size :: 'n json \<Rightarrow> nat))" by simp
next
  fix val :: "(string \<times> 'n json) list" and keys :: "string list" and sorted k
  assume "keys = sortedKeys val" and "k \<in> set keys"
  then have "k \<in> fst ` set val"
    by (simp add: set_sortedKeys)
  then show "(index_map val k, JObject val) \<in> measure size"
    using size_index_map [of k val] by simp
next
  fix val :: "'n json list" and v
  assume "v \<in> set val"
  then show "(v, JArray val) \<in> measure size"
    by (simp add: less_Suc_eq_le size_list_estimation')
qed

section \<open>Properties of the change index\<close>

lemma buildDiffMap_loop_snoc:
  "buildDiffMap_loop m (changes @ [c]) =
     (buildDiffMap_loop m changes)(Join (Path c) ''.'' \<mapsto> changeTypeOf (Type c))"
  by (induction changes arbitrary: m) (simp_all add: Let_def)

lemma buildDiffMap_loop_other:
  "p \<notin> (\<lambda>c. Join (Path c) ''.'') ` set changes \<Longrightarrow> buildDiffMap_loop m changes p = m p"
  by (induction changes arbitrary: m) (simp_all add: Let_def)

lemma buildDiffMap_loop_append:
  "buildDiffMap_loop m (pre @ post) = buildDiffMap_loop (buildDiffMap_loop m pre) post"
  by (induction pre arbitrary: m) (simp_all add: Let_def)

lemma dom_buildDiffMap_loop:
  "dom (buildDiffMap_loop m changes) = dom m \<union> (\<lambda>c. Join (Path c) ''.'') ` set changes"
  by (induction changes arbitrary: m) (auto simp: Let_def)

lemma dom_buildDiffMap:
  "dom (buildDiffMap changes) = (\<lambda>c. Join (Path c) ''.'') ` set changes"
  by (simp add: buildDiffMap_def dom_buildDiffMap_loop)

text \<open>The last assignment to a key is the one the finished map holds.\<close>

lemma buildDiffMap_last_write:
  assumes "Join (Path c) ''.'' \<notin> (\<lambda>c. Join (Path c) ''.'') ` set post"
  shows "buildDiffMap (pre @ c # post) (Join (Path c) ''.'') = Some (changeTypeOf (Type c))"
proof -
  have "buildDiffMap (pre @ c # post) =
      buildDiffMap_loop (buildDiffMap_loop Map.empty (pre @ [c])) post"
    using buildDiffMap_loop_append [of Map.empty "pre @ [c]" post]
    by (simp add: buildDiffMap_def)
  then show ?thesis
    using assms by (simp add: buildDiffMap_loop_other buildDiffMap_loop_snoc)
qed

text \<open>
  C1, as stated, fails: two changes can have the same canonical path, and the index keeps
  the kind of the later one. The documents \<^verbatim>\<open>{"a.b": 1, "a": {}}\<close> and
  \<^verbatim>\<open>{"a": {"b": 2}}\<close> differ by a deletion at the path \<^verbatim>\<open>["a.b"]\<close> and a creation
  at the path \<^verbatim>\<open>["a", "b"]\<close>; both paths join to \<^verbatim>\<open>a.b\<close>. Looking up the
  canonical path of the deletion returns \<open>Added\<close>, not \<open>Removed\<close>.
\<close>

theorem index_fidelity_counterexample:
  "getChangeType
     (buildDiffMap
        [\<lparr>Type = ''delete'', Path = [''a.b''], From = JNumber (1::nat), To = JNull\<rparr>,
         \<lparr>Type = ''create'', Path = [''a'', ''b''], From = JNull, To = JNumber 2\<rparr>])
     (Join [''a.b''] ''.'') = Added \<and> Added \<noteq> Removed"
  by (simp add: buildDiffMap_def getChangeType_def changeTypeOf_def Added_def Removed_def)

text \<open>
  C1, amended (index fidelity): for every change \<open>c\<close> of the sequence passed to
  \<open>buildDiffMap\<close> that no later change of the sequence shares its canonical path with,
  looking up the built index at the canonical path of \<open>c\<close> (its segments joined with
  \<^verbatim>\<open>.\<close>) returns the kind of \<open>c\<close>: \<open>Added\<close> for \<^verbatim>\<open>create\<close>, \<open>Removed\<close> for
  \<^verbatim>\<open>delete\<close>, \<open>Changed\<close> for \<^verbatim>\<open>update\<close> (and \<open>Unchanged\<close> for any other type
  string).
\<close>

theorem index_fidelity_last_change:
  assumes "changes = pre @ c # post"
    and "Join (Path c) ''.'' \<notin> (\<lambda>c'. Join (Path c') ''.'') ` set post"
  shows "getChangeType (buildDiffMap changes) (Join (Path c) ''.'') =
     (if Type c = ''create'' then Added
      else if Type c = ''delete'' then Removed
      else if Type c = ''update'' then Changed
      else Unchanged)"
  using buildDiffMap_last_write [OF assms(2), of pre] assms(1)
  by (simp add: getChangeType_def changeTypeOf_def)

theorem index_fidelity_last_change_witness:
  "[\<lparr>Type = ''delete'', Path = [''x''], From = JBool True, To = JNull :: nat json\<rparr>,
    \<lparr>Type = ''update'', Path = [''y'', ''0''], From = JNumber 1, To = JNumber 2\<rparr>] =
     [] @ \<lparr>Type = ''delete'', Path = [''x''], From = JBool True, To = JNull\<rparr> #
       [\<lparr>Type = ''update'', Path = [''y'', ''0''], From = JNumber 1, To = JNumber 2\<rparr>] \<and>
   Join [''x''] ''.'' \<notin> (\<lambda>c'. Join (Path c') ''.'') `
     set [\<lparr>Type = ''update'', Path = [''y'', ''0''], From = JNumber (1::nat), To = JNumber 2\<rparr>] \<and>
   getChangeType
     (buildDiffMap
        [\<lparr>Type = ''delete'', Path = [''x''], From = JBool True, To = JNull :: nat json\<rparr>,
         \<lparr>Type = ''update'', Path = [''y'', ''0''], From = JNumber 1, To = JNumber 2\<rparr>])
     ''x'' = ''removed''"
proof -
  let ?c = "\<lparr>Type = ''delete'', Path = [''x''], From = JBool True, To = JNull :: nat json\<rparr>"
  let ?post = "[\<lparr>Type = ''update'', Path = [''y'', ''0''], From = JNumber (1::nat), To = JNumber 2\<rparr>]"
  have h1: "[?c, \<lparr>Type = ''update'', Path = [''y'', ''0''], From = JNumber 1, To = JNumber 2\<rparr>] =
      [] @ ?c # ?post"
    by simp
  have h2: "Join (Path ?c) ''.'' \<notin> (\<lambda>c'. Join (Path c') ''.'') ` set ?post"
    by simp
  show ?thesis
    using h2 index_fidelity_last_change [OF h1 h2]
    by (simp add: Removed_def)
qed

text \<open>
  C3 (default lookup): for every index built by \<open>buildDiffMap\<close> and every path that is
  not a key of it, \<open>getChangeType\<close> returns \<open>Unchanged\<close>.
\<close>

theorem getChangeType_default:
  assumes "p \<notin> dom (buildDiffMap changes)"
  shows "getChangeType (buildDiffMap changes) p = Unchanged"
  using assms by (auto simp: getChangeType_def domIff)

theorem getChangeType_default_witness:
  "''x.y'' \<notin> dom (buildDiffMap
      [\<lparr>Type = ''create'', Path = [''x''], From = JNull, To = JBool True :: nat json\<rparr>]) \<and>
   getChangeType
     (buildDiffMap [\<lparr>Type = ''create'', Path = [''x''], From = JNull, To = JBool True :: nat json\<rparr>])
     ''x.y'' = ''unchanged''"
proof -
  have h: "''x.y'' \<notin> dom (buildDiffMap
      [\<lparr>Type = ''create'', Path = [''x''], From = JNull, To = JBool True :: nat json\<rparr>])"
    by (simp add: dom_buildDiffMap)
  show ?thesis
    using h getChangeType_default [OF h] by (simp add: Unchanged_def)
qed

text \<open>The same for a path that is the canonical path of no change of the list.\<close>

lemma getChangeType_not_in_changes:
  assumes "p \<notin> (\<lambda>c. Join (Path c) ''.'') ` set changes"
  shows "getChangeType (buildDiffMap changes) p = Unchanged"
  using assms by (simp add: getChangeType_def buildDiffMap_def buildDiffMap_loop_other)

text \<open>
  C8, as stated, fails for the same reason as C1: a later change with the same canonical
  path and a known type overwrites the entry, and the lookup returns that change's kind.
\<close>

theorem unknown_type_counterexample:
  "getChangeType
     (buildDiffMap
        [\<lparr>Type = ''move'', Path = [''a''], From = JNull, To = JNull :: nat json\<rparr>,
         \<lparr>Type = ''create'', Path = [''a''], From = JNull, To = JBool True\<rparr>])
     (Join [''a''] ''.'') = Added \<and> Added \<noteq> Unchanged"
  by (simp add: buildDiffMap_def getChangeType_def changeTypeOf_def Added_def Unchanged_def)

text \<open>
  C8, amended: for every change \<open>c\<close> of the sequence whose type string is none of
  \<^verbatim>\<open>create\<close>, \<^verbatim>\<open>delete\<close>, \<^verbatim>\<open>update\<close>, and that no later change of the
  sequence shares its canonical path with, \<open>buildDiffMap\<close> still inserts the canonical path
  of \<open>c\<close> into the index, with the value \<open>Unchanged\<close>; \<open>getChangeType\<close> at that path
  returns \<open>Unchanged\<close>, as it does on an index without the path.
\<close>

theorem unknown_type_inserted_as_Unchanged:
  assumes "changes = pre @ c # post"
    and "Type c \<notin> {''create'', ''delete'', ''update''}"
    and "Join (Path c) ''.'' \<notin> (\<lambda>c'. Join (Path c') ''.'') ` set post"
  shows "Join (Path c) ''.'' \<in> dom (buildDiffMap changes) \<and>
     buildDiffMap changes (Join (Path c) ''.'') = Some Unchanged \<and>
     getChangeType (buildDiffMap changes) (Join (Path c) ''.'') = Unchanged \<and>
     getChangeType (buildDiffMap changes) (Join (Path c) ''.'') =
       getChangeType Map.empty (Join (Path c) ''.'')"
proof -
  have "changeTypeOf (Type c) = Unchanged"
    using assms(2) by (simp add: changeTypeOf_def)
  then have "buildDiffMap changes (Join (Path c) ''.'') = Some Unchanged"
    using buildDiffMap_last_write [OF assms(3), of pre] assms(1) by simp
  then show ?thesis
    by (auto simp: getChangeType_def)
qed

theorem unknown_type_inserted_as_Unchanged_witness:
  "[\<lparr>Type = ''move'', Path = [''a'', ''b''], From = JNull, To = JNull :: nat json\<rparr>] =
     [] @ \<lparr>Type = ''move'', Path = [''a'', ''b''], From = JNull, To = JNull\<rparr> # [] \<and>
   ''move'' \<notin> {''create'', ''delete'', ''update''} \<and>
   ''a.b'' \<in> dom (buildDiffMap
      [\<lparr>Type = ''move'', Path = [''a'', ''b''], From = JNull, To = JNull :: nat json\<rparr>]) \<and>
   getChangeType
     (buildDiffMap [\<lparr>Type = ''move'', Path = [''a'', ''b''], From = JNull, To = JNull :: nat json\<rparr>])
     ''a.b'' = ''unchanged''"
proof -
  let ?c = "\<lparr>Type = ''move'', Path = [''a'', ''b''], From = JNull, To = JNull :: nat json\<rparr>"
  have h1: "[?c] = [] @ ?c # []" by simp
  have h2: "Type ?c \<notin> {''create'', ''delete'', ''update''}" by simp
  have h3: "Join (Path ?c) ''.'' \<notin> (\<lambda>c'. Join (Path c') ''.'') ` set []" by simp
  show ?thesis
    using h2 unknown_type_inserted_as_Unchanged [OF h1 h2 h3]
    by (simp add: Unchanged_def)
qed

section \<open>Properties of canonical paths\<close>

text \<open>
  C5 (canonical path form): \<open>pathKey\<close> returns the segment itself when the base is empty
  and otherwise the base, a dot and the segment, whether or not the segment is a decimal
  number; the index \<open>2\<close> of an array and the key \<^verbatim>\<open>"2"\<close> of an object give the same
  path under the same base.
\<close>

theorem pathKey_canonical_form:
  "pathKey base seg = (if base = [] then seg else base @ ''.'' @ seg) \<and>
   pathKey base (Sprintf_d 2) = pathKey base ''2''"
  by (simp add: pathKey_def Sprintf_d.simps)




text \<open>
  C4 (render/diff path agreement) fails on the code when the first of several segments
  is the empty string, which is a legal object key: for the location \<^verbatim>\<open>["", "a"]\<close>
  (the member \<^verbatim>\<open>a\<close> of the member \<^verbatim>\<open>""\<close> of the root) the renderer computes
  \<^verbatim>\<open>a\<close> and the join is \<^verbatim>\<open>.a\<close>. \<open>pathKey\<close> takes the empty base for the root.
\<close>

theorem pathKey_fold_differs_from_Join:
  "foldl pathKey [] ['''', ''a''] = ''a'' \<and> Join ['''', ''a''] ''.'' = ''.a''"
  by (simp add: pathKey_def)

text \<open>
  The consequence for the documents \<^verbatim>\<open>{"": {"a": 1}}\<close> and \<^verbatim>\<open>{"": {"a": 2}}\<close>: the
  index holds \<open>Changed\<close> at the canonical path of the change, and the markup of the second
  document is the one an empty index gives.
\<close>

lemma empty_key_change_not_rendered:
  "getChangeType
     (buildDiffMap
        [\<lparr>Type = ''update'', Path = ['''', ''a''], From = JNumber (1::nat), To = JNumber 2\<rparr>])
     (Join ['''', ''a''] ''.'') = ''changed'' \<and>
   renderJSON Sprintf_d (JObject [('''', JObject [(''a'', JNumber (2::nat))])]) []
     (buildDiffMap
        [\<lparr>Type = ''update'', Path = ['''', ''a''], From = JNumber (1::nat), To = JNumber 2\<rparr>]) =
   renderJSON Sprintf_d (JObject [('''', JObject [(''a'', JNumber (2::nat))])]) [] Map.empty"
  by (simp add: buildDiffMap_def getChangeType_def changeTypeOf_def Changed_def
      renderJSON_JObject sortedKeys_def index_map_def pathKey_def)

section \<open>Properties of escaping\<close>

text \<open>What \<open>Replace htmlReplacer\<close> writes for one byte.\<close>

definition escape_char :: "char \<Rightarrow> string" where
  "escape_char c = (case map_of htmlReplacer c of Some new \<Rightarrow> new | None \<Rightarrow> [c])"

lemma escapeHTML_Nil: "escapeHTML [] = []"
  by (simp add: escapeHTML_def)

lemma escapeHTML_Cons: "escapeHTML (c # cs) = escape_char c @ escapeHTML cs"
  by (simp add: escapeHTML_def escape_char_def)

lemma escapeHTML_append: "escapeHTML (xs @ ys) = escapeHTML xs @ escapeHTML ys"
  by (induction xs) (simp_all add: escapeHTML_Nil escapeHTML_Cons)

lemma htmlReplacer_cases:
  assumes "map_of htmlReplacer c = Some e"
  shows "(c = CHR ''&'' \<and> e = ''&amp;'') \<or> (c = CHR ''<'' \<and> e = ''&lt;'') \<or>
         (c = CHR ''>'' \<and> e = ''&gt;'') \<or> (c = CHR 0x22 \<and> e = ''&quot;'') \<or>
         (c = CHR 0x27 \<and> e = ''&#39;'')"
  using assms by (auto simp: htmlReplacer_def split: if_splits)

lemma htmlReplacer_None:
  assumes "map_of htmlReplacer c = None"
  shows "c \<notin> {CHR ''&'', CHR ''<'', CHR ''>'', CHR 0x22, CHR 0x27}"
  using assms by (auto simp: htmlReplacer_def split: if_splits)

lemma escape_char_clean:
  "set (escape_char c) \<inter> {CHR ''<'', CHR ''>'', CHR 0x22, CHR 0x27} = {}"
proof (cases "map_of htmlReplacer c")
  case None
  then show ?thesis
    using htmlReplacer_None [OF None] by (simp add: escape_char_def)
next
  case (Some e)
  then show ?thesis
    using htmlReplacer_cases [OF Some] by (auto simp: escape_char_def)
qed

lemma escapeHTML_clean:
  "set (escapeHTML s) \<inter> {CHR ''<'', CHR ''>'', CHR 0x22, CHR 0x27} = {}"
proof (induction s)
  case Nil
  show ?case by (simp add: escapeHTML_Nil)
next
  case (Cons c cs)
  then show ?case
    using escape_char_clean [of c] by (simp add: escapeHTML_Cons Int_Un_distrib2)
qed

text \<open>An entity holds one ampersand, its first byte.\<close>

lemma entity_amp_first:
  assumes "map_of htmlReplacer c = Some e" and "k < length e" and "e ! k = CHR ''&''"
  shows "k = 0"
  using htmlReplacer_cases [OF assms(1)] assms(2,3)
  by (auto simp: nth_Cons' split: if_splits)

lemma escape_char_amp:
  assumes "k < length (escape_char c)" and "escape_char c ! k = CHR ''&''"
  shows "k = 0 \<and> (\<exists>e. map_of htmlReplacer c = Some e \<and> escape_char c = e)"
proof (cases "map_of htmlReplacer c")
  case None
  then have "escape_char c = [c]" by (simp add: escape_char_def)
  with assms have "c = CHR ''&''" by simp
  with htmlReplacer_None [OF None] show ?thesis by simp
next
  case (Some e)
  then have "escape_char c = e" by (simp add: escape_char_def)
  with assms entity_amp_first [OF Some, of k] Some show ?thesis by simp
qed

lemma escapeHTML_amp:
  assumes "i < length (escapeHTML s)" and "escapeHTML s ! i = CHR ''&''"
  shows "\<exists>j e. j < length s \<and> map_of htmlReplacer (s ! j) = Some e \<and>
           i = length (escapeHTML (take j s)) \<and> take (length e) (drop i (escapeHTML s)) = e"
  using assms
proof (induction s arbitrary: i)
  case Nil
  then show ?case by (simp add: escapeHTML_Nil)
next
  case (Cons c cs)
  show ?case
  proof (cases "i < length (escape_char c)")
    case True
    with Cons.prems have "escape_char c ! i = CHR ''&''"
      by (simp add: escapeHTML_Cons nth_append)
    with True escape_char_amp [of i c] obtain e where
      e: "i = 0" "map_of htmlReplacer c = Some e" "escape_char c = e" by blast
    then have "0 < length (c # cs) \<and> map_of htmlReplacer ((c # cs) ! 0) = Some e \<and>
      i = length (escapeHTML (take 0 (c # cs))) \<and>
      take (length e) (drop i (escapeHTML (c # cs))) = e"
      by (simp add: escapeHTML_Cons escapeHTML_Nil)
    then show ?thesis by blast
  next
    case False
    define i' where "i' = i - length (escape_char c)"
    with False have i: "i = length (escape_char c) + i'" by simp
    with Cons.prems have "i' < length (escapeHTML cs)" "escapeHTML cs ! i' = CHR ''&''"
      by (simp_all add: escapeHTML_Cons nth_append)
    from Cons.IH [OF this] obtain j e where
      j: "j < length cs" "map_of htmlReplacer (cs ! j) = Some e"
         "i' = length (escapeHTML (take j cs))"
         "take (length e) (drop i' (escapeHTML cs)) = e" by blast
    then have "Suc j < length (c # cs) \<and> map_of htmlReplacer ((c # cs) ! Suc j) = Some e \<and>
      i = length (escapeHTML (take (Suc j) (c # cs))) \<and>
      take (length e) (drop i (escapeHTML (c # cs))) = e"
      using i by (simp add: escapeHTML_Cons)
    then show ?thesis by blast
  qed
qed

text \<open>
  C10 (\<open>escapeHTML\<close> sanitizes): the output holds none of the bytes \<^verbatim>\<open><\<close>, \<^verbatim>\<open>>\<close>,
  the double quote and the single quote; and every ampersand of the output, at a position
  \<open>i\<close>, starts the entity written for a special byte of the input: there is a position
  \<open>j\<close> of the input whose byte is one of the five special ones, the output for the input
  before \<open>j\<close> has length \<open>i\<close>, and from \<open>i\<close> on the output reads the entity of that byte,
  one of \<^verbatim>\<open>&amp;\<close>, \<^verbatim>\<open>&lt;\<close>, \<^verbatim>\<open>&gt;\<close>, \<^verbatim>\<open>&quot;\<close>, \<^verbatim>\<open>&#39;\<close>.
\<close>

theorem escapeHTML_sanitizes:
  "set (escapeHTML s) \<inter> {CHR ''<'', CHR ''>'', CHR 0x22, CHR 0x27} = {} \<and>
   (\<forall>i. i < length (escapeHTML s) \<and> escapeHTML s ! i = CHR ''&'' \<longrightarrow>
      (\<exists>j e. j < length s \<and>
         s ! j \<in> {CHR ''&'', CHR ''<'', CHR ''>'', CHR 0x22, CHR 0x27} \<and>
         map_of htmlReplacer (s ! j) = Some e \<and>
         e \<in> {''&amp;'', ''&lt;'', ''&gt;'', ''&quot;'', ''&#39;''} \<and>
         i = length (escapeHTML (take j s)) \<and>
         take (length e) (drop i (escapeHTML s)) = e))"
proof (intro conjI allI impI)
  show "set (escapeHTML s) \<inter> {CHR ''<'', CHR ''>'', CHR 0x22, CHR 0x27} = {}"
    by (rule escapeHTML_clean)
next
  fix i
  assume "i < length (escapeHTML s) \<and> escapeHTML s ! i = CHR ''&''"
  then obtain j e where j: "j < length s" "map_of htmlReplacer (s ! j) = Some e"
      "i = length (escapeHTML (take j s))" "take (length e) (drop i (escapeHTML s)) = e"
    using escapeHTML_amp [of i s] by blast
  from htmlReplacer_cases [OF j(2)]
  have special: "s ! j \<in> {CHR ''&'', CHR ''<'', CHR ''>'', CHR 0x22, CHR 0x27}"
    and entity: "e \<in> {''&amp;'', ''&lt;'', ''&gt;'', ''&quot;'', ''&#39;''}"
    by auto
  show "\<exists>j e. j < length s \<and>
         s ! j \<in> {CHR ''&'', CHR ''<'', CHR ''>'', CHR 0x22, CHR 0x27} \<and>
         map_of htmlReplacer (s ! j) = Some e \<and>
         e \<in> {''&amp;'', ''&lt;'', ''&gt;'', ''&quot;'', ''&#39;''} \<and>
         i = length (escapeHTML (take j s)) \<and>
         take (length e) (drop i (escapeHTML s)) = e"
  proof (intro exI conjI)
    show "j < length s" by (rule j(1))
    show "s ! j \<in> {CHR ''&'', CHR ''<'', CHR ''>'', CHR 0x22, CHR 0x27}" by (rule special)
    show "map_of htmlReplacer (s ! j) = Some e" by (rule j(2))
    show "e \<in> {''&amp;'', ''&lt;'', ''&gt;'', ''&quot;'', ''&#39;''}" by (rule entity)
    show "i = length (escapeHTML (take j s))" by (rule j(3))
    show "take (length e) (drop i (escapeHTML s)) = e" by (rule j(4))
  qed
qed

theorem escapeHTML_sanitizes_witness:
  "escapeHTML ''a<&'' = ''a&lt;&amp;'' \<and>
   set (escapeHTML ''a<&'') \<inter> {CHR ''<'', CHR ''>'', CHR 0x22, CHR 0x27} = {} \<and>
   5 < length (escapeHTML ''a<&'') \<and> escapeHTML ''a<&'' ! 5 = CHR ''&'' \<and>
   (\<exists>j e. j < length ''a<&'' \<and>
      ''a<&'' ! j \<in> {CHR ''&'', CHR ''<'', CHR ''>'', CHR 0x22, CHR 0x27} \<and>
      map_of htmlReplacer (''a<&'' ! j) = Some e \<and>
      e \<in> {''&amp;'', ''&lt;'', ''&gt;'', ''&quot;'', ''&#39;''} \<and>
      5 = length (escapeHTML (take j ''a<&'')) \<and>
      take (length e) (drop 5 (escapeHTML ''a<&'')) = e)"
proof -
  have out: "escapeHTML ''a<&'' = ''a&lt;&amp;''"
    by (simp add: escapeHTML_def htmlReplacer_def)
  have h: "5 < length (escapeHTML ''a<&'') \<and> escapeHTML ''a<&'' ! 5 = CHR ''&''"
    unfolding out by simp
  note san = escapeHTML_sanitizes [of "''a<&''"]
  note clean = san [THEN conjunct1]
  note amp = san [THEN conjunct2, rule_format, of 5, OF h]
  show ?thesis
    using out clean h amp by (intro conjI) (erule conjunct1 conjunct2 | assumption)+
qed

section \<open>Properties of the key-sorted copy\<close>

lemma map_of_foldl_update:
  "map_of (foldl (\<lambda>sorted k. AList.update k (f k) sorted) init ks) x =
     (if x \<in> set ks then Some (f x) else map_of init x)"
  by (induction ks arbitrary: init) (simp_all add: update_conv')

lemma keys_foldl_update:
  "fst ` set (foldl (\<lambda>sorted k. AList.update k (f k) sorted) init ks) = fst ` set init \<union> set ks"
  by (induction ks arbitrary: init) (auto simp: dom_update)

text \<open>\<open>json_equiv\<close> relates every value to itself.\<close>

lemma json_equiv_refl: "json_equiv v v"
proof (induction v)
  case (JArray xs)
  then show ?case
    by (simp only: json_equiv_JArray) (simp add: list_all2_same)
next
  case (JObject kvs)
  have "json_equiv (index_map kvs k) (index_map kvs k)" if "k \<in> fst ` set kvs" for k
  proof -
    from that have "(k, index_map kvs k) \<in> set kvs" by (rule index_map_member)
    then show ?thesis using JObject.IH by fastforce
  qed
  then have eq: "\<forall>k \<in> fst ` set kvs. json_equiv (index_map kvs k) (index_map kvs k)"
    by (rule ballI)
  show ?case
    by (subst json_equiv_JObject) (intro exI [of _ kvs] conjI refl eq)
qed simp_all

text \<open>It is symmetric and transitive as well: an equivalence.\<close>

lemma json_equiv_sym: "json_equiv a b \<Longrightarrow> json_equiv b a"
proof (induction a b rule: json_equiv.induct)
  case (5 xs b)
  from "5.prems" obtain ys where b: "b = JArray ys" and all2: "list_all2 json_equiv xs ys"
    by (auto simp only: json_equiv_JArray)
  have "json_equiv y x" if "(x, y) \<in> set (zip xs ys)" for x y
  proof -
    from all2 that have "json_equiv x y"
      by (auto simp: list_all2_iff)
    with "5.IH" [OF b that refl] all2 show ?thesis
      by (simp add: list_all2_lengthD)
  qed
  with all2 have "list_all2 json_equiv ys xs"
    by (auto simp: list_all2_iff set_zip)
  then show ?case
    unfolding b by (subst json_equiv_JArray) (intro exI [of _ xs] conjI refl)
next
  case (6 xs b)
  from "6.prems" obtain ys where b: "b = JObject ys"
    and dom: "fst ` set xs = fst ` set ys"
    and eq: "\<forall>k \<in> fst ` set xs. json_equiv (index_map xs k) (index_map ys k)"
    by (auto simp only: json_equiv_JObject)
  have "\<forall>k \<in> fst ` set ys. json_equiv (index_map ys k) (index_map xs k)"
  proof
    fix k assume "k \<in> fst ` set ys"
    then have k: "k \<in> set (map fst xs)" using dom by simp
    moreover from \<open>k \<in> fst ` set ys\<close> dom eq
    have "json_equiv (index_map xs k) (index_map ys k)" by blast
    ultimately have "json_equiv (index_map xs k) (index_map ys k)" by simp
    with "6.IH" [OF b k] dom show "json_equiv (index_map ys k) (index_map xs k)"
      by simp
  qed
  then show ?case
    unfolding b by (subst json_equiv_JObject) (intro exI [of _ xs] conjI refl dom [symmetric])
qed auto

lemma json_equiv_trans: "json_equiv a b \<Longrightarrow> json_equiv b c \<Longrightarrow> json_equiv a c"
proof (induction a b arbitrary: c rule: json_equiv.induct)
  case (5 xs b)
  from "5.prems"(1) obtain ys where b: "b = JArray ys" and xy: "list_all2 json_equiv xs ys"
    by (auto simp only: json_equiv_JArray)
  from "5.prems"(2) obtain zs where c: "c = JArray zs" and yz: "list_all2 json_equiv ys zs"
    unfolding b by (auto simp only: json_equiv_JArray)
  have len: "length xs = length ys" "length ys = length zs"
    using xy yz by (simp_all add: list_all2_lengthD)
  have "json_equiv (xs ! i) (zs ! i)" if "i < length xs" for i
  proof -
    from that len have mem: "(xs ! i, ys ! i) \<in> set (zip xs ys)"
      by (auto simp: set_zip)
    have "json_equiv (xs ! i) (ys ! i)" "json_equiv (ys ! i) (zs ! i)"
      using xy yz that len by (simp_all add: list_all2_nthD)
    with "5.IH" [OF b mem refl] len show ?thesis by simp
  qed
  with len have "list_all2 json_equiv xs zs"
    by (simp add: list_all2_conv_all_nth)
  then show ?case
    unfolding c by (subst json_equiv_JArray) (intro exI [of _ zs] conjI refl)
next
  case (6 xs b)
  from "6.prems"(1) obtain ys where b: "b = JObject ys"
    and dom: "fst ` set xs = fst ` set ys"
    and xy: "\<forall>k \<in> fst ` set xs. json_equiv (index_map xs k) (index_map ys k)"
    by (auto simp only: json_equiv_JObject)
  from "6.prems"(2) obtain zs where c: "c = JObject zs"
    and dom': "fst ` set ys = fst ` set zs"
    and yz: "\<forall>k \<in> fst ` set ys. json_equiv (index_map ys k) (index_map zs k)"
    unfolding b by (auto simp only: json_equiv_JObject)
  have "\<forall>k \<in> fst ` set xs. json_equiv (index_map xs k) (index_map zs k)"
  proof
    fix k assume k: "k \<in> fst ` set xs"
    then have k': "k \<in> set (map fst xs)" by simp
    from k xy have "json_equiv (index_map xs k) (index_map ys k)" by blast
    moreover from k dom yz have "json_equiv (index_map ys k) (index_map zs k)" by blast
    ultimately show "json_equiv (index_map xs k) (index_map zs k)"
      using "6.IH" [OF b k'] dom by simp
  qed
  then show ?case
    unfolding c by (subst json_equiv_JObject) (intro exI [of _ zs] conjI refl dom [THEN trans, OF dom'])
qed auto

text \<open>
  C9 (\<open>sortJSON\<close> preserves the content): for every value \<open>v\<close>, \<open>sortJSON v\<close> denotes
  the same JSON value as \<open>v\<close>: the same scalar, an array of the same length whose elements
  are equivalent position by position, an object with the same keys and an equivalent
  value under each key.
\<close>

theorem sortJSON_content_preserving: "json_equiv (sortJSON v) v"
proof (induction v rule: sortJSON.induct)
  case (1 val)
  let ?f = "\<lambda>k. sortJSON (index_map val k)"
  let ?res = "foldl (\<lambda>sorted k. AList.update k (?f k) sorted) [] (sortedKeys val)"
  have keys: "fst ` set ?res = fst ` set val"
    by (simp add: keys_foldl_update set_sortedKeys)
  have "json_equiv (index_map ?res k) (index_map val k)" if "k \<in> fst ` set val" for k
  proof -
    from that have k: "k \<in> set (sortedKeys val)" by (simp add: set_sortedKeys)
    then have "index_map ?res k = ?f k"
      by (simp add: index_map_def map_of_foldl_update)
    with "1.IH" [OF refl k] show ?thesis by simp
  qed
  then have eq: "\<forall>k \<in> fst ` set ?res. json_equiv (index_map ?res k) (index_map val k)"
    unfolding keys by (rule ballI)
  have "json_equiv (JObject ?res) (JObject val)"
    by (subst json_equiv_JObject) (intro exI [of _ val] conjI refl keys eq)
  then show ?case by (simp add: Let_def)
next
  case (2 val)
  then have "list_all2 json_equiv (map sortJSON val) val"
    by (simp add: list_all2_map1 list_all2_same)
  then have "json_equiv (JArray (map sortJSON val)) (JArray val)"
    by (simp only: json_equiv_JArray) simp
  then show ?case by simp
qed simp_all

section \<open>Determinism of the renderer\<close>

lemma sortedKeys_same_keys:
  assumes "distinct (map fst xs)" and "distinct (map fst ys)" and "fst ` set xs = fst ` set ys"
  shows "sortedKeys xs = sortedKeys ys"
proof (rule sorted_distinct_set_unique)
  show "set (sortedKeys xs) = set (sortedKeys ys)"
    using assms(3) by (simp add: set_sortedKeys)
qed (simp_all add: sortedKeys_sorted sortedKeys_distinct assms)

lemma map_enumerate_nth:
  "map f (enumerate 0 xs) = map (\<lambda>i. f (i, xs ! i)) [0..<length xs]"
  by (rule nth_equalityI) (simp_all add: nth_enumerate_eq)

lemma renderJSON_equiv:
  assumes "wf_json a" and "wf_json b" and "json_equiv a b"
  shows "renderJSON fmtv a path diffMap = renderJSON fmtv b path diffMap"
  using assms
proof (induction fmtv a path diffMap arbitrary: b rule: renderJSON.induct)
  case (1 fmtv val path diffMap)
  from "1.prems"(3) have "\<exists>ys. b = JObject ys \<and> fst ` set val = fst ` set ys \<and>
      (\<forall>k \<in> fst ` set val. json_equiv (index_map val k) (index_map ys k))"
    by (simp only: json_equiv_JObject)
  then obtain ys where b: "b = JObject ys"
    and dom: "fst ` set val = fst ` set ys"
    and eq: "\<forall>k \<in> fst ` set val. json_equiv (index_map val k) (index_map ys k)"
    by (elim exE conjE)
  have "distinct (map fst val)" "distinct (map fst ys)"
    using "1.prems"(1,2) unfolding b by simp_all
  then have keys: "sortedKeys ys = sortedKeys val"
    using dom by (intro sortedKeys_same_keys) simp_all
  have len: "length ys = length val"
    using keys sortedKeys_length [of ys] sortedKeys_length [of val] by simp
  have sub: "renderJSON fmtv (index_map val k) (pathKey path k) diffMap =
        renderJSON fmtv (index_map ys k) (pathKey path k) diffMap"
    if "(i, k) \<in> set (enumerate 0 (sortedKeys val))" for i k
  proof -
    from that have k: "k \<in> fst ` set val"
      using enumerate_member [of i k 0 "sortedKeys val"] by (simp add: set_sortedKeys)
    have "wf_json (index_map val k)"
      using "1.prems"(1) k by (rule wf_json_index_map)
    moreover have "wf_json (index_map ys k)"
      using "1.prems"(2) k unfolding b dom by (rule wf_json_index_map)
    ultimately show ?thesis
      using "1.IH" [OF refl that refl refl refl refl] eq k by blast
  qed
  have "map (\<lambda>(i, k).
       li_item (getChangeType diffMap (pathKey path k)) (key_label k)
         (renderJSON fmtv (index_map val k) (pathKey path k) diffMap)
         (Suc i < length val)) (enumerate 0 (sortedKeys val)) =
     map (\<lambda>(i, k).
       li_item (getChangeType diffMap (pathKey path k)) (key_label k)
         (renderJSON fmtv (index_map ys k) (pathKey path k) diffMap)
         (Suc i < length val)) (enumerate 0 (sortedKeys val))"
  proof (rule map_cong [OF refl])
    fix x assume x: "x \<in> set (enumerate 0 (sortedKeys val))"
    obtain i k where ik: "x = (i, k)" by (cases x)
    with x sub [of i k] show "(case x of (i, k) \<Rightarrow>
       li_item (getChangeType diffMap (pathKey path k)) (key_label k)
         (renderJSON fmtv (index_map val k) (pathKey path k) diffMap)
         (Suc i < length val)) =
      (case x of (i, k) \<Rightarrow>
       li_item (getChangeType diffMap (pathKey path k)) (key_label k)
         (renderJSON fmtv (index_map ys k) (pathKey path k) diffMap)
         (Suc i < length val))"
      by simp
  qed
  then show ?case
    unfolding b renderJSON_JObject keys len by (simp only:)
next
  case (2 fmtv val path diffMap)
  from "2.prems"(3) have "\<exists>ys. b = JArray ys \<and> list_all2 json_equiv val ys"
    by (simp only: json_equiv_JArray)
  then obtain ys where b: "b = JArray ys"
    and all2: "list_all2 json_equiv val ys"
    by (elim exE conjE)
  then have len: "length ys = length val"
    by (simp add: list_all2_lengthD)
  have sub: "renderJSON fmtv (val ! i) (pathKey path (Sprintf_d i)) diffMap =
        renderJSON fmtv (ys ! i) (pathKey path (Sprintf_d i)) diffMap"
    if "i < length val" for i
  proof -
    from that have mem: "(i, val ! i) \<in> set (enumerate 0 val)"
      by (simp add: in_set_enumerate_eq)
    have "wf_json (val ! i)" "wf_json (ys ! i)"
      using "2.prems"(1,2) that len unfolding b by simp_all
    moreover have "json_equiv (val ! i) (ys ! i)"
      using all2 that by (rule list_all2_nthD)
    ultimately show ?thesis
      using "2.IH" [OF mem refl refl refl] by blast
  qed
  have "map (\<lambda>i. case (i, val ! i) of (i, vv) \<Rightarrow>
       li_item (getChangeType diffMap (pathKey path (Sprintf_d i))) []
         (renderJSON fmtv vv (pathKey path (Sprintf_d i)) diffMap)
         (Suc i < length val)) [0..<length val] =
     map (\<lambda>i. case (i, ys ! i) of (i, vv) \<Rightarrow>
       li_item (getChangeType diffMap (pathKey path (Sprintf_d i))) []
         (renderJSON fmtv vv (pathKey path (Sprintf_d i)) diffMap)
         (Suc i < length val)) [0..<length val]"
    by (rule map_cong [OF refl]) (simp add: sub)
  then show ?case
    unfolding b renderJSON_JArray map_enumerate_nth len by (simp only:)
next
  case (3 fmtv val path diffMap)
  then show ?case by simp
next
  case (4 fmtv val path diffMap)
  then show ?case by simp
next
  case (5 fmtv val path diffMap)
  then show ?case by simp
next
  case (6 fmtv path diffMap)
  then show ?case by simp
qed

text \<open>
  C7 (the renderer does not depend on the order of object entries): \<open>sortedKeys\<close> returns
  the keys of the map, each once, in ascending order; the markup of an object is the list
  of its members' items in that order, whatever the order in which the map yields its
  entries, each item made of the class looked up at the member's path, the key, and the
  markup of the value stored under the key; the markup of an array lists its elements by
  ascending position; and two values that denote the same JSON value, however their objects
  list the entries, have the same markup.
\<close>

theorem renderJSON_independent_of_key_order:
  assumes "wf_json a" and "wf_json b" and "json_equiv a b" and "distinct (map fst obj)"
  shows "renderJSON fmtv a path diffMap = renderJSON fmtv b path diffMap \<and>
     sorted (sortedKeys obj) \<and> distinct (sortedKeys obj) \<and>
     set (sortedKeys obj) = fst ` set obj \<and>
     length (sortedKeys obj) = length obj \<and>
     sortedKeys obj = sorted_list_of_set (fst ` set obj) \<and>
     renderJSON fmtv (JObject obj) path diffMap =
       ''<div class=\"json-object\">{<ul class=\"json-list\">'' @
       concat (map (\<lambda>i.
         li_item (getChangeType diffMap (pathKey path (sortedKeys obj ! i)))
           (key_label (sortedKeys obj ! i))
           (renderJSON fmtv (index_map obj (sortedKeys obj ! i))
              (pathKey path (sortedKeys obj ! i)) diffMap)
           (Suc i < length obj)) [0..<length obj]) @
       ''</ul>}</div>'' \<and>
     renderJSON fmtv (JArray arr) path diffMap =
       ''<div class=\"json-array\">[<ul class=\"json-list\">'' @
       concat (map (\<lambda>i.
         li_item (getChangeType diffMap (pathKey path (Sprintf_d i))) []
           (renderJSON fmtv (arr ! i) (pathKey path (Sprintf_d i)) diffMap)
           (Suc i < length arr)) [0..<length arr]) @
       ''</ul>]</div>''"
proof (intro conjI)
  show "renderJSON fmtv a path diffMap = renderJSON fmtv b path diffMap"
    using assms(1-3) by (rule renderJSON_equiv)
  show "sorted (sortedKeys obj)" by (rule sortedKeys_sorted)
  show "distinct (sortedKeys obj)" using assms(4) by (rule sortedKeys_distinct)
  show "set (sortedKeys obj) = fst ` set obj" by (rule set_sortedKeys)
  show "length (sortedKeys obj) = length obj" by (rule sortedKeys_length)
  show "sortedKeys obj = sorted_list_of_set (fst ` set obj)"
  proof -
    have "sorted_list_of_set (set (map fst obj)) = sort (remdups (map fst obj))"
      by (rule sorted_list_of_set_sort_remdups)
    with assms(4) show ?thesis
      by (simp add: sortedKeys_def distinct_remdups_id)
  qed
  show "renderJSON fmtv (JObject obj) path diffMap =
       ''<div class=\"json-object\">{<ul class=\"json-list\">'' @
       concat (map (\<lambda>i.
         li_item (getChangeType diffMap (pathKey path (sortedKeys obj ! i)))
           (key_label (sortedKeys obj ! i))
           (renderJSON fmtv (index_map obj (sortedKeys obj ! i))
              (pathKey path (sortedKeys obj ! i)) diffMap)
           (Suc i < length obj)) [0..<length obj]) @
       ''</ul>}</div>''"
    unfolding renderJSON_JObject map_enumerate_nth sortedKeys_length by simp
  show "renderJSON fmtv (JArray arr) path diffMap =
       ''<div class=\"json-array\">[<ul class=\"json-list\">'' @
       concat (map (\<lambda>i.
         li_item (getChangeType diffMap (pathKey path (Sprintf_d i))) []
           (renderJSON fmtv (arr ! i) (pathKey path (Sprintf_d i)) diffMap)
           (Suc i < length arr)) [0..<length arr]) @
       ''</ul>]</div>''"
    unfolding renderJSON_JArray map_enumerate_nth by simp
qed

theorem renderJSON_independent_of_key_order_witness:
  "wf_json (JObject [(''b'', JNull), (''a'', JArray [JBool True, JNumber (7::nat)])]) \<and>
   wf_json (JObject [(''a'', JArray [JBool True, JNumber (7::nat)]), (''b'', JNull)]) \<and>
   json_equiv (JObject [(''b'', JNull), (''a'', JArray [JBool True, JNumber (7::nat)])])
     (JObject [(''a'', JArray [JBool True, JNumber 7]), (''b'', JNull)]) \<and>
   distinct (map fst [(''b'', JNull), (''a'', JArray [JBool True, JNumber (7::nat)])]) \<and>
   renderJSON Sprintf_d (JObject [(''b'', JNull), (''a'', JArray [JBool True, JNumber 7])]) []
       Map.empty =
     renderJSON Sprintf_d (JObject [(''a'', JArray [JBool True, JNumber 7]), (''b'', JNull)]) []
       Map.empty \<and>
   sortedKeys [(''b'', JNull), (''a'', JArray [JBool True, JNumber (7::nat)])] = [''a'', ''b''] \<and>
   renderJSON Sprintf_d (JObject [(''b'', JNull), (''a'', JArray [JBool True, JNumber 7])]) []
       Map.empty =
     ''<div class=\"json-object\">{<ul class=\"json-list\">'' @
     li_item ''unchanged'' (key_label ''a'')
       (renderJSON Sprintf_d (JArray [JBool True, JNumber 7]) ''a'' Map.empty) True @
     li_item ''unchanged'' (key_label ''b'')
       (renderJSON Sprintf_d JNull ''b'' Map.empty) False @
     ''</ul>}</div>''"
proof -
  let ?m = "[(''b'', JNull), (''a'', JArray [JBool True, JNumber (7::nat)])]"
  let ?a = "JObject ?m"
  let ?b = "JObject [(''a'', JArray [JBool True, JNumber (7::nat)]), (''b'', JNull)]"
  have h1: "wf_json ?a" by simp
  have h2: "wf_json ?b" by simp
  have h3: "json_equiv ?a ?b"
    by (simp add: json_equiv.simps index_map_def insert_commute)
  have h4: "distinct (map fst ?m)" by simp
  have keys: "sortedKeys ?m = [''a'', ''b'']"
    by (simp add: sortedKeys_def)
  note ind = renderJSON_independent_of_key_order
    [OF h1 h2 h3 h4, where fmtv = Sprintf_d and path = "[]" and diffMap = Map.empty]
  note same = ind [THEN conjunct1]
  note shape = ind [THEN conjunct2, THEN conjunct2, THEN conjunct2, THEN conjunct2,
    THEN conjunct2, THEN conjunct2, THEN conjunct1]
  have markup: "renderJSON Sprintf_d ?a [] Map.empty =
     ''<div class=\"json-object\">{<ul class=\"json-list\">'' @
     li_item ''unchanged'' (key_label ''a'')
       (renderJSON Sprintf_d (JArray [JBool True, JNumber 7]) ''a'' Map.empty) True @
     li_item ''unchanged'' (key_label ''b'')
       (renderJSON Sprintf_d JNull ''b'' Map.empty) False @
     ''</ul>}</div>''"
    unfolding shape keys
    by (simp add: getChangeType_def Unchanged_def pathKey_def index_map_def)
  show ?thesis
    using h1 h2 h3 h4 same keys markup by (intro conjI)
qed

section \<open>Annotation of the nodes\<close>

text \<open>
  The nodes of a value below its root, in the order the renderer visits them. Each comes
  with its location (the path segments from the root: a key of an object, the decimal index
  of an array) and with the label the renderer writes before it (the key of an object
  member, nothing for an array element). \<open>segs\<close> is the location of the value itself.
\<close>

function nodes_below :: "'n json \<Rightarrow> string list \<Rightarrow> (string list \<times> string \<times> 'n json) list" where
  "nodes_below (JObject val) segs =
     concat (map (\<lambda>k.
       (segs @ [k], key_label k, index_map val k) #
         nodes_below (index_map val k) (segs @ [k])) (sortedKeys val))"
| "nodes_below (JArray val) segs =
     concat (map (\<lambda>(i, vv).
       (segs @ [Sprintf_d i], [], vv) #
         nodes_below vv (segs @ [Sprintf_d i])) (enumerate 0 val))"
| "nodes_below (JString s) segs = []"
| "nodes_below (JNumber n) segs = []"
| "nodes_below (JBool b) segs = []"
| "nodes_below JNull segs = []"
  by pat_completeness auto
termination
proof (relation "measure (\<lambda>(v, segs). size v)")
  show "wf (measure (\<lambda>(v :: 'n json, segs :: string list). size v))"
    by simp
next
  fix val :: "(string \<times> 'n json) list" and segs :: "string list" and k
  assume "k \<in> set (sortedKeys val)"
  then have "k \<in> fst ` set val"
    by (simp add: set_sortedKeys)
  then show "((index_map val k, segs @ [k]), (JObject val, segs)) \<in> measure (\<lambda>(v, segs). size v)"
    using size_index_map [of k val] by simp
next
  fix val :: "'n json list" and segs :: "string list" and iv :: "nat \<times> 'n json" and i vv
  assume "iv \<in> set (enumerate 0 val)" and "(i, vv) = iv"
  then have "vv \<in> set val"
    using enumerate_member [of i vv 0 val] by simp
  then have "size vv < size (JArray val)"
    by (simp add: less_Suc_eq_le size_list_estimation')
  then show "((vv, segs @ [Sprintf_d i]), (JArray val, segs)) \<in> measure (\<lambda>(v, segs). size v)"
    by simp
qed

text \<open>
  The enumeration leaves no node out: it holds every member of an object and every element
  of an array, and with a node the nodes below that node.
\<close>

lemma nodes_below_object_member:
  assumes "k \<in> fst ` set val"
  shows "(segs @ [k], key_label k, index_map val k) \<in> set (nodes_below (JObject val) segs)"
  using assms by (auto simp: set_sortedKeys)

lemma nodes_below_array_element:
  assumes "i < length val"
  shows "(segs @ [Sprintf_d i], [], val ! i) \<in> set (nodes_below (JArray val) segs)"
proof -
  from assms have "(i, val ! i) \<in> set (enumerate 0 val)"
    by (simp add: in_set_enumerate_eq)
  then show ?thesis
    by (auto intro!: bexI [of _ "(i, val ! i)"])
qed

lemma nodes_below_closed:
  assumes "(s, l, c) \<in> set (nodes_below v segs)"
  shows "set (nodes_below c s) \<subseteq> set (nodes_below v segs)"
  using assms
proof (induction v segs rule: nodes_below.induct)
  case (1 val segs)
  from "1.prems" obtain k where k: "k \<in> set (sortedKeys val)"
    and mem: "(s, l, c) \<in>
      set ((segs @ [k], key_label k, index_map val k) #
        nodes_below (index_map val k) (segs @ [k]))"
    by auto
  have "set (nodes_below c s) \<subseteq> set (nodes_below (index_map val k) (segs @ [k]))"
  proof (cases "(s, l, c) = (segs @ [k], key_label k, index_map val k)")
    case True
    then show ?thesis by simp
  next
    case False
    with mem have "(s, l, c) \<in> set (nodes_below (index_map val k) (segs @ [k]))"
      by auto
    then show ?thesis by (rule "1.IH" [OF k])
  qed
  moreover have "set (nodes_below (index_map val k) (segs @ [k])) \<subseteq>
      set (nodes_below (JObject val) segs)"
    using k by auto
  ultimately show ?case by (rule subset_trans)
next
  case (2 val segs)
  from "2.prems" obtain i vv where iv: "(i, vv) \<in> set (enumerate 0 val)"
    and mem: "(s, l, c) \<in>
      set ((segs @ [Sprintf_d i], [], vv) # nodes_below vv (segs @ [Sprintf_d i]))"
    by auto
  have "set (nodes_below c s) \<subseteq> set (nodes_below vv (segs @ [Sprintf_d i]))"
  proof (cases "(s, l, c) = (segs @ [Sprintf_d i], [], vv)")
    case True
    then show ?thesis by simp
  next
    case False
    with mem have "(s, l, c) \<in> set (nodes_below vv (segs @ [Sprintf_d i]))"
      by auto
    then show ?thesis by (rule "2.IH" [OF iv refl])
  qed
  moreover have "set (nodes_below vv (segs @ [Sprintf_d i])) \<subseteq>
      set (nodes_below (JArray val) segs)"
    using iv by (auto intro!: bexI [of _ "(i, vv)"])
  ultimately show ?case by (rule subset_trans)
qed simp_all










section \<open>The diff engine\<close>

text \<open>
  Modelled from the spec: the diff engine. The program calls \<^verbatim>\<open>diff.Diff\<close> of the library
  \<^verbatim>\<open>github.com/r3labs/diff/v3\<close>, whose source is not part of the repository. The
  definition follows section 4.1 of the specification: two objects are compared key by key
  (keys only in the second are \<open>Added\<close>, keys only in the first are \<open>Removed\<close>, common
  keys are compared recursively, the keys in sorted order); two arrays are compared position
  by position, the positions only the longer one has are \<open>Added\<close> or \<open>Removed\<close>; two
  equal scalars give no change; anything else is one \<open>Changed\<close> record at the current
  path. The kinds are written as the type strings \<open>buildDiffMap\<close> reads, \<^verbatim>\<open>create\<close>,
  \<^verbatim>\<open>delete\<close> and \<^verbatim>\<open>update\<close>; an absent \<open>From\<close> or \<open>To\<close> is \<open>JNull\<close>; an index
  is written as its decimal digits.
\<close>

function (sequential) diff_at :: "string list \<Rightarrow> 'n json \<Rightarrow> 'n json \<Rightarrow> 'n Change list" where
  "diff_at path (JObject a) (JObject b) =
     (let keysA = sortedKeys a; keysB = sortedKeys b in
        map (\<lambda>k. \<lparr>Type = ''create'', Path = path @ [k], From = JNull, To = index_map b k\<rparr>)
          (filter (\<lambda>k. k \<notin> set keysA) keysB) @
        map (\<lambda>k. \<lparr>Type = ''delete'', Path = path @ [k], From = index_map a k, To = JNull\<rparr>)
          (filter (\<lambda>k. k \<notin> set keysB) keysA) @
        concat (map (\<lambda>k. diff_at (path @ [k]) (index_map a k) (index_map b k))
          (filter (\<lambda>k. k \<in> set keysB) keysA)))"
| "diff_at path (JArray a) (JArray b) =
     concat (map (\<lambda>(i, x, y). diff_at (path @ [Sprintf_d i]) x y) (enumerate 0 (zip a b))) @
     map (\<lambda>(i, y). \<lparr>Type = ''create'', Path = path @ [Sprintf_d i], From = JNull, To = y\<rparr>)
       (enumerate (length a) (drop (length a) b)) @
     map (\<lambda>(i, x). \<lparr>Type = ''delete'', Path = path @ [Sprintf_d i], From = x, To = JNull\<rparr>)
       (enumerate (length b) (drop (length b) a))"
| "diff_at path a b =
     (if a = b then [] else [\<lparr>Type = ''update'', Path = path, From = a, To = b\<rparr>])"
  by pat_completeness auto
termination
  apply (relation "measure (\<lambda>(path, a, b). size a)")
  apply simp
  subgoal for path a b keysA keysB k
    using size_index_map [of k a] by (simp add: set_sortedKeys)
  subgoal for path a b ixy i xy x y
    using enumerate_member [of i xy 0 "zip a b"] set_zip_leftD [of x y a b]
    by (auto simp: less_Suc_eq_le size_list_estimation')
  done

declare diff_at.simps [simp del]

text \<open>The root call starts with the empty path.\<close>

definition Diff :: "'n json \<Rightarrow> 'n json \<Rightarrow> 'n Change list" where
  "Diff a b = diff_at [] a b"

lemma diff_at_same: "a = b \<Longrightarrow> diff_at path a b = []"
proof (induction path a b rule: diff_at.induct)
  case (1 path a b)
  have "diff_at (path @ [k]) (index_map a k) (index_map b k) = []"
    if "k \<in> set (filter (\<lambda>k. k \<in> set (sortedKeys b)) (sortedKeys a))" for k
    using "1.IH" [OF refl refl that] "1.prems" by simp
  then have "concat (map (\<lambda>k. diff_at (path @ [k]) (index_map a k) (index_map b k))
      (filter (\<lambda>k. k \<in> set (sortedKeys b)) (sortedKeys a))) = []"
    by simp
  moreover have "filter (\<lambda>k. k \<notin> set (sortedKeys a)) (sortedKeys b) = []"
    and "filter (\<lambda>k. k \<notin> set (sortedKeys b)) (sortedKeys a) = []"
    using "1.prems" by simp_all
  ultimately show ?case
    by (simp add: diff_at.simps(1) Let_def)
next
  case (2 path a b)
  have "diff_at (path @ [Sprintf_d i]) x y = []"
    if "(i, x, y) \<in> set (enumerate 0 (zip a b))" for i x y
  proof -
    from that have "(x, y) \<in> set (zip a b)"
      by (rule enumerate_member)
    with "2.prems" have "x = y"
      by (simp add: zip_same)
    with "2.IH" [OF that refl refl] show ?thesis by simp
  qed
  then have "concat (map (\<lambda>(i, x, y). diff_at (path @ [Sprintf_d i]) x y)
      (enumerate 0 (zip a b))) = []"
    by auto
  then show ?case
    using "2.prems" by (simp add: diff_at.simps(2))
qed (simp_all add: diff_at.simps)

text \<open>
  C2 (identity of the diff engine): for every JSON value \<open>x\<close>, the diff of \<open>x\<close> with
  itself is the empty sequence of changes.
\<close>

theorem Diff_identity: "Diff x x = []"
  by (simp add: Diff_def diff_at_same)

text \<open>The scenarios of section 8 of the specification.\<close>

lemma Diff_scenarios:
  "Diff (JObject [(''x'', JNumber (1::nat))]) (JObject [(''x'', JNumber 1)]) = []"
  "Diff (JObject [(''x'', JNumber (1::nat))]) (JObject [(''x'', JNumber 2)]) =
     [\<lparr>Type = ''update'', Path = [''x''], From = JNumber 1, To = JNumber 2\<rparr>]"
  "Diff (JObject []) (JObject [(''y'', JArray [JNumber (1::nat), JNumber 2])]) =
     [\<lparr>Type = ''create'', Path = [''y''], From = JNull, To = JArray [JNumber 1, JNumber 2]\<rparr>]"
  "Diff (JArray [JNumber (1::nat), JNumber 2, JNumber 3]) (JArray [JNumber 1, JNumber 2]) =
     [\<lparr>Type = ''delete'', Path = [''2''], From = JNumber 3, To = JNull\<rparr>]"
  "Diff (JObject [(''n'', JObject [(''a'', JNumber (1::nat))])]) (JObject [(''n'', JNumber 5)]) =
     [\<lparr>Type = ''update'', Path = [''n''], From = JObject [(''a'', JNumber 1)], To = JNumber 5\<rparr>]"
  by (simp_all add: Diff_def diff_at.simps sortedKeys_def index_map_def Sprintf_d.simps)

end
